theory Spec2Isabelle
  imports Main "HOL-Library.Sublist"
begin

section \<open>Image names: \<open>external/k8s\<close>, type \<open>Image\<close>\<close>

text \<open>
  Go strings are byte sequences; they are modelled as \<^typ>\<open>string\<close>.
  \<open>strings.Index\<close> and \<open>strings.Split\<close> belong to the Go standard library; they are
  modelled after their documented behaviour: \<open>Index\<close> is the position of the first
  occurrence of the separator, \<open>Split\<close> cuts at every occurrence, left to right, without
  overlap, and an empty separator cuts after every character.
\<close>

fun strings_Index :: "string \<Rightarrow> string \<Rightarrow> nat option" where
  "strings_Index [] sep = (if sep = [] then Some 0 else None)"
| "strings_Index (c # cs) sep =
     (if prefix sep (c # cs) then Some 0 else map_option Suc (strings_Index cs sep))"

lemma strings_Index_bound:
  "strings_Index s sep = Some m \<Longrightarrow> m + length sep \<le> length s"
proof (induction s arbitrary: m)
  case Nil
  then show ?case by (simp split: if_splits)
next
  case (Cons c cs)
  show ?case
  proof (cases "prefix sep (c # cs)")
    case True
    then have "length sep \<le> length (c # cs)" by (rule prefix_length_le)
    with True Cons.prems show ?thesis by simp
  next
    case False
    with Cons.prems obtain k where "strings_Index cs sep = Some k" "m = Suc k"
      by auto
    with Cons.IH show ?thesis by fastforce
  qed
qed

function strings_Split :: "string \<Rightarrow> string \<Rightarrow> string list" where
  "strings_Split s sep =
     (if sep = [] then map (\<lambda>c. [c]) s
      else case strings_Index s sep of
             None \<Rightarrow> [s]
           | Some m \<Rightarrow> take m s # strings_Split (drop (m + length sep) s) sep)"
  by pat_completeness auto
termination
proof (relation "measure (\<lambda>(s, sep). length s)")
  show "wf (measure (\<lambda>(s, sep). length s))" by simp
next
  fix s sep :: string and m :: nat
  assume "sep \<noteq> []" and "strings_Index s sep = Some m"
  then have "m + length sep \<le> length s" and "0 < length sep"
    by (simp_all add: strings_Index_bound)
  then have "length s - (m + length sep) < length s" by arith
  then show "((drop (m + length sep) s, sep), (s, sep)) \<in> measure (\<lambda>(s, sep). length s)"
    by simp
qed

declare strings_Split.simps [simp del]

record Image =
  Repository :: string
  Tag :: string

text \<open>An index expression \<open>s[i]\<close> panics when \<open>i\<close> is out of range.\<close>

datatype panic = IndexOutOfRange nat nat

definition index_go :: "'a list \<Rightarrow> nat \<Rightarrow> panic + 'a" where
  "index_go xs i = (if i < length xs then Inr (xs ! i) else Inl (IndexOutOfRange i (length xs)))"

text \<open>
  \<open>getFromImageName\<close> writes the two fields of its receiver; the receiver is passed in and
  returned. A panic of an index expression is the \<open>Inl\<close> branch.
\<close>

definition getFromImageName :: "Image \<Rightarrow> string \<Rightarrow> panic + Image" where
  "getFromImageName i name =
     (let s = strings_Split name '':'' in
      if length s = 1 then Inr (i\<lparr>Repository := name, Tag := ''latest''\<rparr>)
      else case index_go s 0 of
             Inl p \<Rightarrow> Inl p
           | Inr r \<Rightarrow> (case index_go s 1 of
                         Inl p \<Rightarrow> Inl p
                       | Inr t \<Rightarrow> Inr (i\<lparr>Repository := r, Tag := t\<rparr>)))"

definition NewImage :: "string \<Rightarrow> panic + Image" where
  "NewImage s = getFromImageName \<lparr>Repository = [], Tag = []\<rparr> s"

section \<open>Environment lookups: package \<open>env\<close>\<close>

text \<open>
  The process environment is a map from variable names to values; \<open>os.LookupEnv\<close> is the
  lookup in that map (a variable set to the empty string is present).
\<close>

type_synonym environ = "string \<rightharpoonup> string"

definition GetEnvOrDefault :: "environ \<Rightarrow> string \<Rightarrow> string \<Rightarrow> string" where
  "GetEnvOrDefault env name other =
     (case env name of None \<Rightarrow> other | Some found \<Rightarrow> found)"

definition LookupEnvOrDefault ::
  "(string \<rightharpoonup> string) \<Rightarrow> environ \<Rightarrow> string \<Rightarrow> string \<Rightarrow> string" where
  "LookupEnvOrDefault lookUpMap env name other =
     (let defaut = GetEnvOrDefault env name other in
      case lookUpMap defaut of Some v \<Rightarrow> v | None \<Rightarrow> defaut)"


section \<open>Cluster images: \<open>external/k8s/service_out_cluster.go\<close>\<close>

subsection \<open>Records of the Kubernetes API\<close>

text \<open>
  Of the API types \<open>v1.Container\<close>, \<open>v1.PodSpec\<close>, \<open>v1.Pod\<close>, \<open>v1.PodList\<close> and
  \<open>metav1.ListOptions\<close> only the fields that the code reads are kept. The field
  \<open>Container.Image\<close> is called \<open>Image_field\<close>, and the field \<open>ListOptions.Continue\<close> is
  called \<open>Continue_opt\<close>.
\<close>

record Container =
  Image_field :: string

record PodSpec =
  Containers :: "Container list"

record Pod =
  Spec :: PodSpec

record PodList =
  Items :: "Pod list"
  Continue :: string

record ListOptions =
  Limit :: int
  Continue_opt :: string

text \<open>
  \<open>k.clientset.CoreV1().Pods("").List(ctx, opts)\<close> is the boundary to the cluster. Its
  answer may change from call to call, so the model gives it the number of the call as
  well as the options; it returns an error (\<open>Inl\<close>) or a page.
\<close>

type_synonym lister = "nat \<Rightarrow> ListOptions \<Rightarrow> string + PodList"

subsection \<open>\<open>getImagesV1\<close>\<close>

text \<open>
  The map \<open>imageSet\<close> of type \<open>map[string]struct{}\<close> is a set of strings. The state of
  the two nested loops is the pair of \<open>imageSet\<close> and the slice \<open>images\<close>.
\<close>

type_synonym scan_state = "string set \<times> string list"

fun scan_containers :: "Container list \<Rightarrow> scan_state \<Rightarrow> scan_state" where
  "scan_containers [] st = st"
| "scan_containers (c # cs) (imageSet, images) =
     scan_containers cs
       (if Image_field c \<noteq> [] then
          (if Image_field c \<notin> imageSet
           then (insert (Image_field c) imageSet, images @ [Image_field c])
           else (imageSet, images))
        else (imageSet, images))"

fun scan_pods :: "Pod list \<Rightarrow> scan_state \<Rightarrow> scan_state" where
  "scan_pods [] st = st"
| "scan_pods (pod # pods) st = scan_pods pods (scan_containers (Containers (Spec pod)) st)"

definition getImagesV1 :: "PodList \<Rightarrow> string list" where
  "getImagesV1 pods = snd (scan_pods (Items pods) ({}, []))"

text \<open>
  \<open>GetClusterImagesV1\<close> lists once, with empty options, and returns the pair of the images
  and the error; on an error the slice is still nil.
\<close>

definition GetClusterImagesV1 :: "lister \<Rightarrow> string list \<times> string option" where
  "GetClusterImagesV1 list =
     (case list 0 \<lparr>Limit = 0, Continue_opt = []\<rparr> of
        Inl err \<Rightarrow> ([], Some err)
      | Inr pods \<Rightarrow> (getImagesV1 pods, None))"

subsection \<open>Ranging over a map\<close>

text \<open>
  \<open>for image := range imageSet\<close> visits every key once, in an order that Go leaves open.
  The slice built by such a loop is therefore any duplicate-free enumeration of the keys.
\<close>

definition range_keys :: "string set \<Rightarrow> string list \<Rightarrow> bool" where
  "range_keys imageSet images \<longleftrightarrow> distinct images \<and> set images = imageSet"

subsection \<open>\<open>getImagesV2\<close> and \<open>GetClusterImagesV2\<close>\<close>

text \<open>
  The consumer: \<open>podChan\<close> is the sequence of pods received until the channel is closed.
\<close>

fun insert_containers :: "Container list \<Rightarrow> string set \<Rightarrow> string set" where
  "insert_containers [] imageSet = imageSet"
| "insert_containers (container # cs) imageSet =
     insert_containers cs
       (if Image_field container \<noteq> [] then insert (Image_field container) imageSet
        else imageSet)"

fun drain_pods :: "Pod list \<Rightarrow> string set \<Rightarrow> string set" where
  "drain_pods [] imageSet = imageSet"
| "drain_pods (pod # podChan) imageSet =
     drain_pods podChan (insert_containers (Containers (Spec pod)) imageSet)"

definition getImagesV2 :: "Pod list \<Rightarrow> string list \<Rightarrow> bool" where
  "getImagesV2 podChan images \<longleftrightarrow> range_keys (drain_pods podChan {}) images"

text \<open>
  The producer. The channel is unbuffered and the consumer receives until the channel is
  closed, so every \<open>select\<close> ends in one of its two cases; \<open>ctxDone k\<close> tells whether the
  \<open>k\<close>-th \<open>select\<close> of the run takes the case \<open>ctx.Done()\<close>. \<open>publish\<close> is the loop over
  one page: it returns the pods sent, the number of the next \<open>select\<close>, and whether the
  goroutine returned from inside the loop.
\<close>

fun publish :: "(nat \<Rightarrow> bool) \<Rightarrow> nat \<Rightarrow> Pod list \<Rightarrow> Pod list \<times> nat \<times> bool" where
  "publish ctxDone k [] = ([], k, False)"
| "publish ctxDone k (pod # items) =
     (if ctxDone k then ([], Suc k, True)
      else case publish ctxDone (Suc k) items of
             (sent, k', stopped) \<Rightarrow> (pod # sent, k', stopped))"

text \<open>
  The outer \<open>for\<close> loop has no bound of its own: it runs for as long as the cluster hands
  out continue tokens. \<open>stream_pods list ctxDone n k continueToken\<close> is the sequence of
  pods sent from the \<open>n\<close>-th call of \<open>List\<close> on, or \<open>None\<close> when the loop never ends.
\<close>

partial_function (option) stream_pods ::
  "lister \<Rightarrow> (nat \<Rightarrow> bool) \<Rightarrow> nat \<Rightarrow> nat \<Rightarrow> string \<Rightarrow> Pod list option" where
  "stream_pods list ctxDone n k continueToken =
     (case list n \<lparr>Limit = 100, Continue_opt = continueToken\<rparr> of
        Inl err \<Rightarrow> Some []
      | Inr pods \<Rightarrow>
          (case publish ctxDone k (Items pods) of
             (sent, k', stopped) \<Rightarrow>
               if stopped then Some sent
               else if Continue pods = [] then Some sent
               else Option.bind (stream_pods list ctxDone (Suc n) k' (Continue pods))
                      (\<lambda>later. Some (sent @ later))))"

text \<open>
  The progress of the producer: \<open>streams_to list ctxDone n k tok sent n' k' tok'\<close> holds
  when the loop, about to make call \<open>n\<close> with token \<open>tok\<close>, fetches zero or more pages
  without error, sends each of them whole on the channel (\<open>sent\<close> in all), gets a
  non-empty continue token with each, and is then about to make call \<open>n'\<close> with token
  \<open>tok'\<close>.
\<close>

inductive streams_to ::
  "lister \<Rightarrow> (nat \<Rightarrow> bool) \<Rightarrow> nat \<Rightarrow> nat \<Rightarrow> string \<Rightarrow> Pod list \<Rightarrow> nat \<Rightarrow> nat \<Rightarrow> string \<Rightarrow> bool"
  for list :: lister and ctxDone :: "nat \<Rightarrow> bool" where
  here: "streams_to list ctxDone n k tok [] n k tok"
| page: "list n \<lparr>Limit = 100, Continue_opt = tok\<rparr> = Inr pods \<Longrightarrow>
         publish ctxDone k (Items pods) = (sent, k', False) \<Longrightarrow>
         Continue pods \<noteq> [] \<Longrightarrow>
         streams_to list ctxDone (Suc n) k' (Continue pods) later n'' k'' tok'' \<Longrightarrow>
         streams_to list ctxDone n k tok (sent @ later) n'' k'' tok''"

text \<open>
  \<open>GetClusterImagesV2\<close> returns the slice of \<open>getImagesV2\<close> together with a nil error; it
  has a result only if the producer closes the channel.
\<close>

definition GetClusterImagesV2 ::
  "lister \<Rightarrow> (nat \<Rightarrow> bool) \<Rightarrow> string list \<times> string option \<Rightarrow> bool" where
  "GetClusterImagesV2 list ctxDone res \<longleftrightarrow>
     (case stream_pods list ctxDone 0 0 [] of
        None \<Rightarrow> False
      | Some podChan \<Rightarrow> getImagesV2 podChan (fst res) \<and> snd res = None)"

subsection \<open>\<open>GetImagesV3\<close>\<close>

text \<open>
  One goroutine per pod sends the non-empty images of its containers, in order, on the
  unbuffered channel \<open>ch\<close>.
\<close>

fun sends :: "Container list \<Rightarrow> string list" where
  "sends [] = []"
| "sends (container # cs) =
     (if Image_field container \<noteq> [] then Image_field container # sends cs else sends cs)"

text \<open>
  \<open>chan_run pending received\<close>: with \<open>pending\<close> the messages each goroutine has still to
  send, \<open>received\<close> is a sequence in which the receiver may get them. Any goroutine with
  a message left may be the next to send; when none has a message left, every goroutine
  has called \<open>wg.Done\<close>, \<open>wg.Wait\<close> returns and the channel is closed.
\<close>

inductive chan_run :: "string list list \<Rightarrow> string list \<Rightarrow> bool" where
  closed: "concat pending = [] \<Longrightarrow> chan_run pending []"
| recv: "chan_run (pre @ rest # post) received \<Longrightarrow>
         chan_run (pre @ (img # rest) # post) (img # received)"

fun collect_chan :: "string list \<Rightarrow> string set \<Rightarrow> string set" where
  "collect_chan [] imageSet = imageSet"
| "collect_chan (img # received) imageSet = collect_chan received (insert img imageSet)"

text \<open>
  \<open>GetImagesV3 pods received images\<close>: \<open>images\<close> is a possible result of the call when the
  channel delivers the messages in the order \<open>received\<close>.
\<close>

definition GetImagesV3 :: "PodList \<Rightarrow> string list \<Rightarrow> string list \<Rightarrow> bool" where
  "GetImagesV3 pods received images \<longleftrightarrow>
     chan_run (map (\<lambda>pod. sends (Containers (Spec pod))) (Items pods)) received
     \<and> range_keys (collect_chan received {}) images"

subsection \<open>\<open>NewK8SOutCli\<close>\<close>

text \<open>
  The constructor reads the home directory and the environment and calls
  \<open>filepath.Join\<close>, \<open>clientcmd.BuildConfigFromFlags\<close> and \<open>kubernetes.NewForConfig\<close>. These
  are fields of a record \<open>platform\<close>, as is the value of \<open>context.Background()\<close>. A context
  argument is \<open>None\<close> when it is nil.
\<close>

record ('ctx, 'cfg, 'cs) platform =
  context_Background :: 'ctx
  homedir_HomeDir :: string
  os_Environ :: environ
  filepath_Join :: "string list \<Rightarrow> string"
  BuildConfigFromFlags :: "string \<Rightarrow> string \<Rightarrow> string + 'cfg"
  NewForConfig :: "'cfg \<Rightarrow> string + 'cs"

record ('ctx, 'cs) K8SOutCli =
  ctx :: 'ctx
  clientset :: 'cs

definition getKubeConfig :: "('ctx, 'cfg, 'cs) platform \<Rightarrow> string + string" where
  "getKubeConfig p =
     (let home = homedir_HomeDir p;
          kubeconfig0 = (if home \<noteq> [] then filepath_Join p [home, ''.kube'', ''config''] else []);
          kubeconfig = GetEnvOrDefault (os_Environ p) ''KUBE_CONFIG'' kubeconfig0
      in if kubeconfig = []
         then Inl ''kubeconfig path not found, nor provided by environment variable KUBE_CONFIG''
         else Inr kubeconfig)"

definition NewK8SOutCli ::
  "('ctx, 'cfg, 'cs) platform \<Rightarrow> 'ctx option \<Rightarrow> string + ('ctx, 'cs) K8SOutCli" where
  "NewK8SOutCli p ctx_arg =
     (let k_ctx = (case ctx_arg of Some c \<Rightarrow> c | None \<Rightarrow> context_Background p) in
      case getKubeConfig p of
        Inl err \<Rightarrow> Inl err
      | Inr kubeconfig \<Rightarrow>
          (case BuildConfigFromFlags p [] kubeconfig of
             Inl err \<Rightarrow> Inl err
           | Inr config \<Rightarrow>
               (case NewForConfig p config of
                  Inl err \<Rightarrow> Inl err
                | Inr cs \<Rightarrow> Inr \<lparr>ctx = k_ctx, clientset = cs\<rparr>)))"

section \<open>Notions of the specification\<close>

text \<open>
  The words of the specification: the portion of a string before its first \<open>:\<close> and the
  portion after it.
\<close>

definition before_first_colon :: "string \<Rightarrow> string" where
  "before_first_colon raw = takeWhile (\<lambda>c. c \<noteq> CHR '':'') raw"

definition after_first_colon :: "string \<Rightarrow> string" where
  "after_first_colon raw = tl (dropWhile (\<lambda>c. c \<noteq> CHR '':'') raw)"

text \<open>
  The item references of a sequence of records, in the order of the records and of the
  containers of each record; the item identifiers are the non-empty ones.
\<close>

definition item_refs :: "Pod list \<Rightarrow> string list" where
  "item_refs pods = concat (map (\<lambda>pod. map Image_field (Containers (Spec pod))) pods)"

definition identifiers :: "Pod list \<Rightarrow> string list" where
  "identifiers pods = filter (\<lambda>i. i \<noteq> []) (item_refs pods)"

text \<open>
  Keeping each element of a list at its first occurrence only.
\<close>

fun first_seen :: "'a list \<Rightarrow> 'a list" where
  "first_seen [] = []"
| "first_seen (x # xs) = x # first_seen (filter (\<lambda>y. y \<noteq> x) xs)"

section \<open>Example inputs\<close>

definition pod_of :: "string list \<Rightarrow> Pod" where
  "pod_of images = \<lparr>Spec = \<lparr>Containers = map (\<lambda>i. \<lparr>Image_field = i\<rparr>) images\<rparr>\<rparr>"

definition two_pods :: PodList where
  "two_pods = \<lparr>Items = [pod_of [''redis:7'', ''nginx''], pod_of [''nginx'', [], ''busybox'']],
               Continue = []\<rparr>"

definition five_pods :: PodList where
  "five_pods = \<lparr>Items = [pod_of [''x:1''], pod_of [''x:1'', ''y:2''], pod_of [''x:1''],
                          pod_of [''x:1''], pod_of [''x:1'']],
                Continue = []\<rparr>"

definition refusing_lister :: lister where
  "refusing_lister n opts = Inl ''connection refused''"

definition flaky_lister :: lister where
  "flaky_lister n opts =
     (if n = 0 then Inr \<lparr>Items = [pod_of [''redis:7'']], Continue = ''page2''\<rparr>
      else Inl ''timeout'')"

definition never_done :: "nat \<Rightarrow> bool" where
  "never_done k = False"

definition example_platform :: "(nat, string, string) platform" where
  "example_platform =
     \<lparr>context_Background = 0,
      homedir_HomeDir = ''/root'',
      os_Environ = Map.empty,
      filepath_Join = (\<lambda>elems. case elems of [] \<Rightarrow> []
                         | e # es \<Rightarrow> e @ concat (map (\<lambda>x. CHR ''/'' # x) es)),
      BuildConfigFromFlags = (\<lambda>masterUrl kubeconfigPath. Inr kubeconfigPath),
      NewForConfig = (\<lambda>config. Inr (''clientset for '' @ config))\<rparr>"

section \<open>Properties of the image-name parser\<close>

lemma strings_Index_colon:
  "strings_Index s '':'' =
     (if CHR '':'' \<in> set s then Some (length (before_first_colon s)) else None)"
  by (induction s) (auto simp: before_first_colon_def)

lemma strings_Split_no_colon:
  "CHR '':'' \<notin> set s \<Longrightarrow> strings_Split s '':'' = [s]"
  by (subst strings_Split.simps) (simp add: strings_Index_colon)

lemma drop_past_first_colon:
  "drop (Suc (length (before_first_colon s))) s = after_first_colon s"
  by (induction s) (auto simp: before_first_colon_def after_first_colon_def)

lemma take_before_first_colon:
  "take (length (before_first_colon s)) s = before_first_colon s"
  unfolding before_first_colon_def by (rule takeWhile_eq_take [symmetric])

lemma strings_Split_colon:
  "CHR '':'' \<in> set s \<Longrightarrow>
   strings_Split s '':'' = before_first_colon s # strings_Split (after_first_colon s) '':''"
  by (subst strings_Split.simps)
    (simp add: strings_Index_colon drop_past_first_colon take_before_first_colon)

lemma before_first_colon_id:
  "CHR '':'' \<notin> set s \<Longrightarrow> before_first_colon s = s"
  by (induction s) (auto simp: before_first_colon_def)

lemma strings_Split_colon_hd:
  "\<exists>rest. strings_Split s '':'' = before_first_colon s # rest"
proof (cases "CHR '':'' \<in> set s")
  case True
  then show ?thesis by (simp add: strings_Split_colon)
next
  case False
  then show ?thesis by (simp add: strings_Split_no_colon before_first_colon_id)
qed

lemma getFromImageName_no_colon:
  "CHR '':'' \<notin> set raw \<Longrightarrow>
   getFromImageName i raw = Inr (i\<lparr>Repository := raw, Tag := ''latest''\<rparr>)"
  by (simp add: getFromImageName_def strings_Split_no_colon)

lemma getFromImageName_colon:
  assumes "CHR '':'' \<in> set raw"
  shows "getFromImageName i raw =
     Inr (i\<lparr>Repository := before_first_colon raw,
            Tag := before_first_colon (after_first_colon raw)\<rparr>)"
proof -
  obtain rest where
    "strings_Split (after_first_colon raw) '':'' = before_first_colon (after_first_colon raw) # rest"
    using strings_Split_colon_hd by blast
  then show ?thesis
    by (simp add: getFromImageName_def strings_Split_colon [OF assms] index_go_def)
qed

lemma before_first_colon_empty_iff:
  "before_first_colon s = [] \<longleftrightarrow> s = [] \<or> hd s = CHR '':''"
  by (cases s) (auto simp: before_first_colon_def)

text \<open>
  C1, as stated, fails: the tag is not the whole remainder after the first \<open>:\<close>. For
  \<open>localhost:5000/redis:7\<close> the remainder is \<open>5000/redis:7\<close>, and the tag returned is
  \<open>5000/redis\<close>: of the list that \<open>strings.Split\<close> returns, only the elements 0 and 1
  are read.
\<close>

theorem getFromImageName_tag_remainder_counterexample:
  "NewImage ''localhost:5000/redis:7'' = Inr \<lparr>Repository = ''localhost'', Tag = ''5000/redis''\<rparr>
   \<and> after_first_colon ''localhost:5000/redis:7'' = ''5000/redis:7''"
  by (simp add: NewImage_def getFromImageName_colon before_first_colon_def after_first_colon_def)

text \<open>
  C1, amended: for every string that contains a \<open>:\<close>, \<open>getFromImageName\<close> returns (it does
  not panic) with the repository equal to the portion before the first \<open>:\<close> and the tag equal
  to the portion between the first \<open>:\<close> and the second one (the whole remainder when there
  is no second \<open>:\<close>); what follows a second \<open>:\<close> is dropped.
\<close>

theorem getFromImageName_first_two_segments:
  assumes "CHR '':'' \<in> set raw"
  shows "getFromImageName i raw =
     Inr (i\<lparr>Repository := before_first_colon raw,
            Tag := before_first_colon (after_first_colon raw)\<rparr>)"
  using assms by (rule getFromImageName_colon)

theorem getFromImageName_first_two_segments_witness:
  "CHR '':'' \<in> set ''redis:7:x''
   \<and> getFromImageName \<lparr>Repository = ''old'', Tag = ''old''\<rparr> ''redis:7:x''
       = Inr \<lparr>Repository = ''redis'', Tag = ''7''\<rparr>"
proof -
  have a: "CHR '':'' \<in> set ''redis:7:x''" by simp
  show ?thesis
    using a getFromImageName_first_two_segments [OF a, of "\<lparr>Repository = ''old'', Tag = ''old''\<rparr>"]
    by (simp add: before_first_colon_def after_first_colon_def)
qed

text \<open>
  C3, as stated, fails: a string that ends with its first \<open>:\<close> gets the empty tag.
\<close>

theorem getFromImageName_empty_tag_counterexample:
  "NewImage ''redis:'' = Inr \<lparr>Repository = ''redis'', Tag = []\<rparr>"
  by (simp add: NewImage_def getFromImageName_colon before_first_colon_def after_first_colon_def)

text \<open>
  C3, amended: for every input string \<open>getFromImageName\<close> returns an image (no panic); the
  tag is \<open>latest\<close> when the string has no \<open>:\<close>, and the tag is empty exactly when the string
  has a \<open>:\<close> and its first \<open>:\<close> is the last character or is followed at once by another
  \<open>:\<close>.
\<close>

theorem getFromImageName_tag_empty_iff:
  "case getFromImageName i raw of
     Inl p \<Rightarrow> False
   | Inr img \<Rightarrow>
       (CHR '':'' \<notin> set raw \<longrightarrow> Tag img = ''latest'')
       \<and> (Tag img = [] \<longleftrightarrow>
            CHR '':'' \<in> set raw
            \<and> (after_first_colon raw = [] \<or> hd (after_first_colon raw) = CHR '':''))"
proof (cases "CHR '':'' \<in> set raw")
  case True
  then show ?thesis
    by (simp add: getFromImageName_colon before_first_colon_empty_iff)
next
  case False
  then show ?thesis
    by (simp add: getFromImageName_no_colon)
qed

theorem getFromImageName_tag_empty_iff_witness:
  "CHR '':'' \<notin> set ''redis''
   \<and> getFromImageName \<lparr>Repository = [], Tag = []\<rparr> ''redis''
       = Inr \<lparr>Repository = ''redis'', Tag = ''latest''\<rparr>"
  using getFromImageName_tag_empty_iff [where i = "\<lparr>Repository = [], Tag = []\<rparr>" and raw = "''redis''"]
  by (simp add: getFromImageName_no_colon)

text \<open>
  C6: the three parser laws. \<open>NewImage\<close> of \<open>redis\<close> is repository \<open>redis\<close> with tag
  \<open>latest\<close>; of \<open>redis:7\<close> it is repository \<open>redis\<close> with tag \<open>7\<close>; of the empty string it
  is the empty repository with tag \<open>latest\<close>, and no input is rejected.
\<close>

theorem NewImage_parser_laws:
  "NewImage ''redis'' = Inr \<lparr>Repository = ''redis'', Tag = ''latest''\<rparr>
   \<and> NewImage ''redis:7'' = Inr \<lparr>Repository = ''redis'', Tag = ''7''\<rparr>
   \<and> NewImage [] = Inr \<lparr>Repository = [], Tag = ''latest''\<rparr>"
  by (simp add: NewImage_def getFromImageName_colon getFromImageName_no_colon
      before_first_colon_def after_first_colon_def)

section \<open>Properties of the environment lookups\<close>

text \<open>
  C10: \<open>LookupEnvOrDefault\<close> looks the value that \<open>GetEnvOrDefault\<close> resolves up in the
  alias map, the fallback default included: when the variable is unset and the default
  \<open>other\<close> is a key of the map, the result is the alias of \<open>other\<close>; when the variable is set
  to a key of the map, the result is the alias of its value; when the resolved value is not
  a key of the map, the result is the resolved value.
\<close>

theorem LookupEnvOrDefault_alias:
  "(env name = None \<and> m other = Some v \<longrightarrow> LookupEnvOrDefault m env name other = v)
   \<and> (env1 name1 = Some found \<and> m1 found = Some v1 \<longrightarrow>
        LookupEnvOrDefault m1 env1 name1 other1 = v1)
   \<and> (m2 (GetEnvOrDefault env2 name2 other2) = None \<longrightarrow>
        LookupEnvOrDefault m2 env2 name2 other2 = GetEnvOrDefault env2 name2 other2)"
  by (simp add: LookupEnvOrDefault_def GetEnvOrDefault_def)

theorem LookupEnvOrDefault_alias_witness:
  "(Map.empty :: environ) ''ENV'' = None \<and> [''dev'' \<mapsto> ''development''] ''dev'' = Some ''development''
   \<and> LookupEnvOrDefault [''dev'' \<mapsto> ''development''] Map.empty ''ENV'' ''dev'' = ''development''
   \<and> [''ENV'' \<mapsto> ''prd''] ''ENV'' = Some ''prd'' \<and> [''prd'' \<mapsto> ''production''] ''prd'' = Some ''production''
   \<and> LookupEnvOrDefault [''prd'' \<mapsto> ''production''] [''ENV'' \<mapsto> ''prd''] ''ENV'' ''dev'' = ''production''
   \<and> [''dev'' \<mapsto> ''development''] (GetEnvOrDefault [''ENV'' \<mapsto> ''qa''] ''ENV'' ''dev'') = None
   \<and> LookupEnvOrDefault [''dev'' \<mapsto> ''development''] [''ENV'' \<mapsto> ''qa''] ''ENV'' ''dev'' = ''qa''"
  using LookupEnvOrDefault_alias [of "Map.empty" "''ENV''" "[''dev'' \<mapsto> ''development'']" "''dev''"
      "''development''" "[''ENV'' \<mapsto> ''prd'']" "''ENV''" "''prd''" "[''prd'' \<mapsto> ''production'']"
      "''production''" "''dev''" "[''dev'' \<mapsto> ''development'']" "[''ENV'' \<mapsto> ''qa'']" "''ENV''" "''dev''"]
  by (simp add: GetEnvOrDefault_def)

section \<open>Properties of the collectors\<close>

lemma set_first_seen: "set (first_seen xs) = set xs"
  by (induction xs rule: first_seen.induct) auto

lemma distinct_first_seen: "distinct (first_seen xs)"
  by (induction xs rule: first_seen.induct) (auto simp: set_first_seen)

lemma subseq_first_seen: "subseq (first_seen xs) xs"
proof (induction xs rule: first_seen.induct)
  case 1
  then show ?case by simp
next
  case (2 x xs)
  have "subseq (filter (\<lambda>y. y \<noteq> x) xs) xs" by simp
  with 2 have "subseq (first_seen (filter (\<lambda>y. y \<noteq> x) xs)) xs"
    by (rule subseq_order.trans)
  then show ?case by simp
qed

lemma first_seen_append:
  "first_seen (xs @ ys) = first_seen xs @ first_seen (filter (\<lambda>y. y \<notin> set xs) ys)"
proof (induction xs arbitrary: ys rule: first_seen.induct)
  case 1
  then show ?case by simp
next
  case (2 x xs)
  have e: "filter (\<lambda>y. y \<notin> set (filter (\<lambda>y. y \<noteq> x) xs)) (filter (\<lambda>y. y \<noteq> x) ys)
        = filter (\<lambda>y. y \<notin> set (x # xs)) ys"
    unfolding filter_filter by (rule filter_cong) auto
  have "first_seen ((x # xs) @ ys)
        = x # first_seen (filter (\<lambda>y. y \<noteq> x) xs @ filter (\<lambda>y. y \<noteq> x) ys)"
    by simp
  also have "\<dots> = x # first_seen (filter (\<lambda>y. y \<noteq> x) xs)
       @ first_seen (filter (\<lambda>y. y \<notin> set (filter (\<lambda>y. y \<noteq> x) xs)) (filter (\<lambda>y. y \<noteq> x) ys))"
    using 2 [of "filter (\<lambda>y. y \<noteq> x) ys"] by simp
  also have "\<dots> = first_seen (x # xs) @ first_seen (filter (\<lambda>y. y \<notin> set (x # xs)) ys)"
    unfolding e by simp
  finally show ?case .
qed

lemma scan_containers_eq:
  "scan_containers cs (S, out) =
     (S \<union> {i \<in> set (map Image_field cs). i \<noteq> []},
      out @ first_seen (filter (\<lambda>i. i \<noteq> [] \<and> i \<notin> S) (map Image_field cs)))"
proof (induction cs arbitrary: S out)
  case Nil
  then show ?case by simp
next
  case (Cons c cs)
  let ?x = "Image_field c"
  show ?case
  proof (cases "?x \<noteq> [] \<and> ?x \<notin> S")
    case True
    have f: "filter (\<lambda>y. y \<noteq> ?x) (filter (\<lambda>i. i \<noteq> [] \<and> i \<notin> S) (map Image_field cs))
       = filter (\<lambda>i. i \<noteq> [] \<and> i \<notin> insert ?x S) (map Image_field cs)"
      unfolding filter_filter by (rule filter_cong) auto
    have s: "insert ?x S \<union> {i \<in> set (map Image_field cs). i \<noteq> []}
       = S \<union> {i \<in> set (map Image_field (c # cs)). i \<noteq> []}"
      using True by auto
    have "scan_containers (c # cs) (S, out) = scan_containers cs (insert ?x S, out @ [?x])"
      using True by simp
    also have "\<dots> = (insert ?x S \<union> {i \<in> set (map Image_field cs). i \<noteq> []},
        (out @ [?x]) @ first_seen (filter (\<lambda>i. i \<noteq> [] \<and> i \<notin> insert ?x S) (map Image_field cs)))"
      by (rule Cons.IH)
    also have "\<dots> = (S \<union> {i \<in> set (map Image_field (c # cs)). i \<noteq> []},
        out @ first_seen (filter (\<lambda>i. i \<noteq> [] \<and> i \<notin> S) (map Image_field (c # cs))))"
    proof -
      have "filter (\<lambda>i. i \<noteq> [] \<and> i \<notin> S) (map Image_field (c # cs))
            = ?x # filter (\<lambda>i. i \<noteq> [] \<and> i \<notin> S) (map Image_field cs)"
        using True by simp
      then have "first_seen (filter (\<lambda>i. i \<noteq> [] \<and> i \<notin> S) (map Image_field (c # cs)))
            = ?x # first_seen (filter (\<lambda>i. i \<noteq> [] \<and> i \<notin> insert ?x S) (map Image_field cs))"
        by (simp only: first_seen.simps f)
      then show ?thesis unfolding s by simp
    qed
    finally show ?thesis .
  next
    case False
    have s: "S \<union> {i \<in> set (map Image_field cs). i \<noteq> []}
       = S \<union> {i \<in> set (map Image_field (c # cs)). i \<noteq> []}"
      using False by auto
    have "scan_containers (c # cs) (S, out) = scan_containers cs (S, out)"
      using False by auto
    also have "\<dots> = (S \<union> {i \<in> set (map Image_field cs). i \<noteq> []},
        out @ first_seen (filter (\<lambda>i. i \<noteq> [] \<and> i \<notin> S) (map Image_field cs)))"
      by (rule Cons.IH)
    also have "\<dots> = (S \<union> {i \<in> set (map Image_field (c # cs)). i \<noteq> []},
        out @ first_seen (filter (\<lambda>i. i \<noteq> [] \<and> i \<notin> S) (map Image_field (c # cs))))"
      unfolding s using False by auto
    finally show ?thesis .
  qed
qed


lemma item_refs_Cons:
  "item_refs (pod # pods) = map Image_field (Containers (Spec pod)) @ item_refs pods"
  by (simp add: item_refs_def)

lemma set_identifiers_Cons:
  "set (identifiers (pod # pods))
   = {i \<in> set (map Image_field (Containers (Spec pod))). i \<noteq> []} \<union> set (identifiers pods)"
  by (auto simp: identifiers_def item_refs_Cons)

lemma scan_pods_eq:
  "scan_pods pods (S, out) =
     (S \<union> set (identifiers pods),
      out @ first_seen (filter (\<lambda>i. i \<noteq> [] \<and> i \<notin> S) (item_refs pods)))"
proof (induction pods arbitrary: S out)
  case Nil
  then show ?case by (simp add: identifiers_def item_refs_def)
next
  case (Cons pod pods)
  let ?A = "map Image_field (Containers (Spec pod))"
  let ?S1 = "S \<union> {i \<in> set ?A. i \<noteq> []}"
  let ?P = "\<lambda>i. i \<noteq> [] \<and> i \<notin> S"
  have e: "filter (\<lambda>y. y \<notin> set (filter ?P ?A)) (filter ?P (item_refs pods))
           = filter (\<lambda>i. i \<noteq> [] \<and> i \<notin> ?S1) (item_refs pods)"
    unfolding filter_filter by (rule filter_cong) auto
  have "scan_pods (pod # pods) (S, out)
        = scan_pods pods (?S1, out @ first_seen (filter ?P ?A))"
    by (simp add: scan_containers_eq)
  also have "\<dots> = (?S1 \<union> set (identifiers pods),
      (out @ first_seen (filter ?P ?A))
        @ first_seen (filter (\<lambda>i. i \<noteq> [] \<and> i \<notin> ?S1) (item_refs pods)))"
    by (rule Cons.IH)
  also have "\<dots> = (S \<union> set (identifiers (pod # pods)),
      out @ first_seen (filter ?P (item_refs (pod # pods))))"
    unfolding e [symmetric] set_identifiers_Cons item_refs_Cons filter_append first_seen_append
    by (simp add: Un_assoc)
  finally show ?case .
qed

lemma getImagesV1_first_seen:
  "getImagesV1 pods = first_seen (identifiers (Items pods))"
proof -
  have "filter (\<lambda>i. i \<noteq> [] \<and> i \<notin> {}) (item_refs (Items pods)) = identifiers (Items pods)"
    by (simp add: identifiers_def)
  then show ?thesis by (simp add: getImagesV1_def scan_pods_eq)
qed

lemma insert_containers_eq:
  "insert_containers cs S = S \<union> {i \<in> set (map Image_field cs). i \<noteq> []}"
  by (induction cs arbitrary: S) auto

lemma drain_pods_eq: "drain_pods podChan S = S \<union> set (identifiers podChan)"
proof (induction podChan arbitrary: S)
  case Nil
  then show ?case by (simp add: identifiers_def item_refs_def)
next
  case (Cons pod podChan)
  show ?case
    unfolding drain_pods.simps Cons.IH insert_containers_eq set_identifiers_Cons
    by (simp add: Un_assoc)
qed

lemma sends_eq: "sends cs = filter (\<lambda>i. i \<noteq> []) (map Image_field cs)"
  by (induction cs) auto

lemma collect_chan_eq: "collect_chan received S = S \<union> set received"
  by (induction received arbitrary: S) auto

lemma chan_run_set: "chan_run pending received \<Longrightarrow> set received = \<Union> (set ` set pending)"
proof (induction rule: chan_run.induct)
  case (closed pending)
  then show ?case by auto
next
  case (recv pre rest post received img)
  then show ?case by auto
qed

lemma pending_identifiers:
  "concat (map (\<lambda>pod. sends (Containers (Spec pod))) pods) = identifiers pods"
  by (induction pods) (simp_all add: identifiers_def item_refs_def sends_eq)

lemma chan_run_in_turn:
  "concat pre = [] \<Longrightarrow> chan_run (pre @ pending) (concat pending)"
proof (induction pending arbitrary: pre)
  case Nil
  then show ?case by (simp add: chan_run.closed)
next
  case (Cons q pending)
  from Cons.prems show ?case
  proof (induction q)
    case Nil
    then have "concat (pre @ [[]]) = []" by simp
    then have "chan_run ((pre @ [[]]) @ pending) (concat pending)" by (rule Cons.IH)
    then show ?case by simp
  next
    case (Cons img q)
    then have "chan_run (pre @ q # pending) (concat (q # pending))" by simp
    then have "chan_run (pre @ (img # q) # pending) (img # concat (q # pending))"
      by (rule chan_run.recv)
    then show ?case by simp
  qed
qed

lemma chan_run_exists: "chan_run pending (concat pending)"
  using chan_run_in_turn [of "[]" pending] by simp


lemma count_list_distinct: "distinct xs \<Longrightarrow> x \<in> set xs \<Longrightarrow> count_list xs x = 1"
  by (induction xs) auto

lemma getImagesV2_set:
  "getImagesV2 podChan images \<Longrightarrow> distinct images \<and> set images = set (identifiers podChan)"
  by (simp add: getImagesV2_def range_keys_def drain_pods_eq)

lemma GetImagesV3_set:
  assumes "GetImagesV3 pods received images"
  shows "distinct images \<and> set images = set (identifiers (Items pods))
         \<and> set received = set (identifiers (Items pods))"
proof -
  from assms have r: "chan_run (map (\<lambda>pod. sends (Containers (Spec pod))) (Items pods)) received"
    and k: "range_keys (collect_chan received {}) images"
    by (simp_all add: GetImagesV3_def)
  from r have "set received = set (concat (map (\<lambda>pod. sends (Containers (Spec pod))) (Items pods)))"
    by (simp add: chan_run_set)
  then have "set received = set (identifiers (Items pods))"
    by (simp only: pending_identifiers)
  with k show ?thesis by (simp add: range_keys_def collect_chan_eq)
qed

lemma empty_not_identifier: "[] \<notin> set (identifiers pods)"
  by (simp add: identifiers_def)

text \<open>
  \<open>getImagesV2\<close> and \<open>GetImagesV3\<close> return: every finite sequence of pods has a result, for
  \<open>GetImagesV3\<close> already with the goroutines sending one after the other.
\<close>

lemma getImagesV2_returns: "\<exists>images. getImagesV2 podChan images"
proof -
  have "finite (set (identifiers podChan))" by simp
  then obtain images where "set images = set (identifiers podChan)" and "distinct images"
    using finite_distinct_list by blast
  then have "getImagesV2 podChan images"
    by (simp add: getImagesV2_def range_keys_def drain_pods_eq)
  then show ?thesis ..
qed

lemma GetImagesV3_returns: "\<exists>received images. GetImagesV3 pods received images"
proof -
  let ?pending = "map (\<lambda>pod. sends (Containers (Spec pod))) (Items pods)"
  have r: "chan_run ?pending (concat ?pending)" by (rule chan_run_exists)
  have "finite (set (concat ?pending))" by simp
  then obtain images where "set images = set (concat ?pending)" and "distinct images"
    using finite_distinct_list by blast
  then have "range_keys (collect_chan (concat ?pending) {}) images"
    by (simp add: range_keys_def collect_chan_eq)
  with r have "GetImagesV3 pods (concat ?pending) images"
    by (simp add: GetImagesV3_def)
  then show ?thesis by blast
qed

subsection \<open>The example inputs\<close>

lemma two_pods_V2: "getImagesV2 (Items two_pods) [''busybox'', ''redis:7'', ''nginx'']"
  by (auto simp: getImagesV2_def range_keys_def two_pods_def pod_of_def)

lemma two_pods_V3:
  "GetImagesV3 two_pods [''nginx'', ''redis:7'', ''busybox'', ''nginx'']
     [''nginx'', ''busybox'', ''redis:7'']"
proof -
  have 0: "chan_run [[], []] []" by (rule chan_run.closed) simp
  have 1: "chan_run [[''nginx''], []] [''nginx'']"
    using chan_run.recv [of "[]" "[]" "[[]]" "[]" "''nginx''"] 0 by simp
  have 2: "chan_run [[''nginx''], [''busybox'']] [''busybox'', ''nginx'']"
    using chan_run.recv [of "[[''nginx'']]" "[]" "[]" "[''nginx'']" "''busybox''"] 1 by simp
  have 3: "chan_run [[''redis:7'', ''nginx''], [''busybox'']] [''redis:7'', ''busybox'', ''nginx'']"
    using chan_run.recv [of "[]" "[''nginx'']" "[[''busybox'']]" "[''busybox'', ''nginx'']" "''redis:7''"] 2
    by simp
  have 4: "chan_run [[''redis:7'', ''nginx''], [''nginx'', ''busybox'']]
             [''nginx'', ''redis:7'', ''busybox'', ''nginx'']"
    using chan_run.recv [of "[[''redis:7'', ''nginx'']]" "[''busybox'']" "[]"
        "[''redis:7'', ''busybox'', ''nginx'']" "''nginx''"] 3
    by simp
  have "range_keys (collect_chan [''nginx'', ''redis:7'', ''busybox'', ''nginx''] {})
          [''nginx'', ''busybox'', ''redis:7'']"
    by (auto simp: range_keys_def)
  with 4 show ?thesis
    by (simp add: GetImagesV3_def two_pods_def pod_of_def)
qed

lemma five_pods_V2: "getImagesV2 (Items five_pods) [''y:2'', ''x:1'']"
  by (auto simp: getImagesV2_def range_keys_def five_pods_def pod_of_def)

lemma five_pods_V3:
  "GetImagesV3 five_pods [''x:1'', ''x:1'', ''y:2'', ''x:1'', ''x:1'', ''x:1''] [''x:1'', ''y:2'']"
proof -
  have "chan_run (map (\<lambda>pod. sends (Containers (Spec pod))) (Items five_pods))
          (concat (map (\<lambda>pod. sends (Containers (Spec pod))) (Items five_pods)))"
    by (rule chan_run_exists)
  moreover have "range_keys (collect_chan [''x:1'', ''x:1'', ''y:2'', ''x:1'', ''x:1'', ''x:1''] {})
      [''x:1'', ''y:2'']"
    by (auto simp: range_keys_def)
  ultimately show ?thesis
    by (simp add: GetImagesV3_def five_pods_def pod_of_def)
qed

subsection \<open>Results of the three collectors\<close>

text \<open>
  C4: for every record set the three collectors produce the same set of item identifiers,
  whatever the order. \<open>getImagesV1\<close> and \<open>GetImagesV3\<close> get the page \<open>pods\<close>, and
  \<open>getImagesV2\<close> gets a channel that delivers the records of that page; the results are
  compared for every order in which the maps are ranged over and every order in which the
  channel of \<open>GetImagesV3\<close> delivers. The common set is the set of the non-empty item
  references of the page.
\<close>

theorem collectors_same_set:
  assumes "getImagesV2 (Items pods) images2" and "GetImagesV3 pods received images3"
  shows "set (getImagesV1 pods) = set images2 \<and> set images2 = set images3
         \<and> set images3 = set (identifiers (Items pods))"
  using getImagesV2_set [OF assms(1)] GetImagesV3_set [OF assms(2)]
  by (simp add: getImagesV1_first_seen set_first_seen)

theorem collectors_same_set_witness:
  "getImagesV2 (Items two_pods) [''busybox'', ''redis:7'', ''nginx'']
   \<and> GetImagesV3 two_pods [''nginx'', ''redis:7'', ''busybox'', ''nginx'']
        [''nginx'', ''busybox'', ''redis:7'']
   \<and> getImagesV1 two_pods = [''redis:7'', ''nginx'', ''busybox'']
   \<and> set (getImagesV1 two_pods) = set [''busybox'', ''redis:7'', ''nginx'']
   \<and> set [''busybox'', ''redis:7'', ''nginx''] = set [''nginx'', ''busybox'', ''redis:7'']"
proof -
  have "getImagesV1 two_pods = [''redis:7'', ''nginx'', ''busybox'']"
    by (simp add: getImagesV1_def two_pods_def pod_of_def)
  then show ?thesis
    using collectors_same_set [OF two_pods_V2 two_pods_V3] two_pods_V2 two_pods_V3
    by simp
qed


text \<open>
  C5: \<open>getImagesV1\<close> scans the item lists of the records in their order and appends an
  identifier at its first occurrence only: the result is the list of identifiers of the
  page with each one kept at its first occurrence. It is a subsequence of the item
  references, it has no duplicate, and being a function of the page it is determined by
  the order of the input.
\<close>

theorem getImagesV1_first_seen_order:
  "getImagesV1 pods = first_seen (identifiers (Items pods))
   \<and> subseq (getImagesV1 pods) (item_refs (Items pods))
   \<and> distinct (getImagesV1 pods)"
proof -
  have "subseq (first_seen (identifiers (Items pods))) (identifiers (Items pods))"
    by (rule subseq_first_seen)
  moreover have "subseq (identifiers (Items pods)) (item_refs (Items pods))"
    by (simp add: identifiers_def)
  ultimately have "subseq (first_seen (identifiers (Items pods))) (item_refs (Items pods))"
    by (rule subseq_order.trans)
  then show ?thesis
    by (simp add: getImagesV1_first_seen distinct_first_seen)
qed

text \<open>
  C7: no result of the three collectors has a duplicate, and an identifier that occurs in
  the records (in five of them, say) occurs exactly once in each result.
\<close>

theorem collectors_no_duplicates:
  assumes "getImagesV2 (Items pods) images2" and "GetImagesV3 pods received images3"
  shows "distinct (getImagesV1 pods) \<and> distinct images2 \<and> distinct images3
         \<and> (x \<noteq> [] \<and> x \<in> set (item_refs (Items pods)) \<longrightarrow>
              count_list (getImagesV1 pods) x = 1 \<and> count_list images2 x = 1
              \<and> count_list images3 x = 1)"
proof -
  note v2 = getImagesV2_set [OF assms(1)] and v3 = GetImagesV3_set [OF assms(2)]
  have d1: "distinct (getImagesV1 pods)"
    by (simp add: getImagesV1_first_seen distinct_first_seen)
  have s1: "set (getImagesV1 pods) = set (identifiers (Items pods))"
    by (simp add: getImagesV1_first_seen set_first_seen)
  have "count_list (getImagesV1 pods) x = 1 \<and> count_list images2 x = 1
        \<and> count_list images3 x = 1"
    if "x \<noteq> []" and "x \<in> set (item_refs (Items pods))"
  proof -
    from that have "x \<in> set (identifiers (Items pods))" by (simp add: identifiers_def)
    with d1 s1 v2 v3 show ?thesis by (simp add: count_list_distinct)
  qed
  with d1 v2 v3 show ?thesis by blast
qed

theorem collectors_no_duplicates_witness:
  "getImagesV2 (Items five_pods) [''y:2'', ''x:1'']
   \<and> GetImagesV3 five_pods [''x:1'', ''x:1'', ''y:2'', ''x:1'', ''x:1'', ''x:1''] [''x:1'', ''y:2'']
   \<and> ''x:1'' \<noteq> [] \<and> ''x:1'' \<in> set (item_refs (Items five_pods))
   \<and> count_list (item_refs (Items five_pods)) ''x:1'' = 5
   \<and> count_list (getImagesV1 five_pods) ''x:1'' = 1
   \<and> count_list [''y:2'', ''x:1''] ''x:1'' = 1
   \<and> count_list [''x:1'', ''y:2''] ''x:1'' = 1"
proof -
  have i: "item_refs (Items five_pods) = [''x:1'', ''x:1'', ''y:2'', ''x:1'', ''x:1'', ''x:1'']"
    by (simp add: item_refs_def five_pods_def pod_of_def)
  show ?thesis
    using collectors_no_duplicates [OF five_pods_V2 five_pods_V3, of "''x:1''"]
      five_pods_V2 five_pods_V3
    by (simp add: i)
qed

text \<open>
  C8: the empty string is in no result of the three collectors; it is put neither in the
  set of \<open>getImagesV2\<close> nor on the channel of \<open>GetImagesV3\<close>.
\<close>

theorem collectors_skip_empty:
  assumes "getImagesV2 (Items pods) images2" and "GetImagesV3 pods received images3"
  shows "[] \<notin> set (getImagesV1 pods) \<and> [] \<notin> drain_pods (Items pods) {} \<and> [] \<notin> set images2
         \<and> [] \<notin> set received \<and> [] \<notin> set images3"
  using getImagesV2_set [OF assms(1)] GetImagesV3_set [OF assms(2)]
  by (simp add: getImagesV1_first_seen set_first_seen drain_pods_eq empty_not_identifier)

theorem collectors_skip_empty_witness:
  "getImagesV2 (Items two_pods) [''busybox'', ''redis:7'', ''nginx'']
   \<and> GetImagesV3 two_pods [''nginx'', ''redis:7'', ''busybox'', ''nginx'']
        [''nginx'', ''busybox'', ''redis:7'']
   \<and> [] \<in> set (item_refs (Items two_pods))
   \<and> [] \<notin> set (getImagesV1 two_pods)
   \<and> [] \<notin> set [''busybox'', ''redis:7'', ''nginx'']
   \<and> [] \<notin> set [''nginx'', ''busybox'', ''redis:7'']"
proof -
  have "[] \<in> set (item_refs (Items two_pods))"
    by (simp add: item_refs_def two_pods_def pod_of_def)
  then show ?thesis
    using collectors_skip_empty [OF two_pods_V2 two_pods_V3] two_pods_V2 two_pods_V3
    by simp
qed

subsection \<open>Errors of the streaming collector\<close>

lemma range_keys_empty: "range_keys {} images \<longleftrightarrow> images = []"
  by (auto simp: range_keys_def)

lemma stream_pods_fetch_error:
  "list n \<lparr>Limit = 100, Continue_opt = tok\<rparr> = Inl e \<Longrightarrow> stream_pods list ctxDone n k tok = Some []"
  by (subst stream_pods.simps) simp

lemma stream_pods_next_page:
  assumes "list n \<lparr>Limit = 100, Continue_opt = tok\<rparr> = Inr page"
    and "publish ctxDone k (Items page) = (sent, k', False)"
    and "Continue page \<noteq> []"
  shows "stream_pods list ctxDone n k tok =
     Option.bind (stream_pods list ctxDone (Suc n) k' (Continue page)) (\<lambda>later. Some (sent @ later))"
  using assms by (subst stream_pods.simps) simp

lemma GetClusterImagesV2_nil_error:
  "GetClusterImagesV2 list ctxDone (images, err) \<Longrightarrow> err = None"
  by (simp add: GetClusterImagesV2_def split: option.splits)

text \<open>
  A failure of a later fetch is silent: when the pages before call \<open>n\<close> were sent whole and
  call \<open>n\<close> fails, the results are the listings of the images of the pods sent, with a nil
  error.
\<close>

lemma stream_pods_streams_to:
  assumes "streams_to list ctxDone n k tok sent n' k' tok'"
  shows "stream_pods list ctxDone n k tok =
     Option.bind (stream_pods list ctxDone n' k' tok') (\<lambda>later. Some (sent @ later))"
  using assms
proof (induction rule: streams_to.induct)
  case (here n k tok)
  then show ?case by simp
next
  case (page n tok pods k sent k' later n'' k'' tok'')
  have "stream_pods list ctxDone n k tok =
     Option.bind (stream_pods list ctxDone (Suc n) k' (Continue pods)) (\<lambda>l. Some (sent @ l))"
    using page.hyps(1-3) by (rule stream_pods_next_page)
  also have "\<dots> = Option.bind (stream_pods list ctxDone n'' k'' tok'')
       (\<lambda>l. Some ((sent @ later) @ l))"
    unfolding page.IH by (cases "stream_pods list ctxDone n'' k'' tok''") simp_all
  finally show ?case .
qed

lemma GetClusterImagesV2_later_fetch_error:
  assumes "streams_to list ctxDone 0 0 [] sent n k tok"
    and "list n \<lparr>Limit = 100, Continue_opt = tok\<rparr> = Inl e"
  shows "GetClusterImagesV2 list ctxDone (images, err) \<longleftrightarrow> getImagesV2 sent images \<and> err = None"
proof -
  have "stream_pods list ctxDone n k tok = Some []"
    using assms(2) by (rule stream_pods_fetch_error)
  with stream_pods_streams_to [OF assms(1)] have "stream_pods list ctxDone 0 0 [] = Some sent"
    by simp
  then show ?thesis by (simp add: GetClusterImagesV2_def)
qed

lemma flaky_lister_result:
  "GetClusterImagesV2 flaky_lister never_done ([''redis:7''], None)"
proof -
  have "streams_to flaky_lister never_done (Suc 0) (Suc 0) ''page2'' [] (Suc 0) (Suc 0) ''page2''"
    by (rule streams_to.here)
  then have "streams_to flaky_lister never_done 0 0 [] ([pod_of [''redis:7'']] @ [])
      (Suc 0) (Suc 0) ''page2''"
    using streams_to.page [of flaky_lister 0 "[]"
        "\<lparr>Items = [pod_of [''redis:7'']], Continue = ''page2''\<rparr>" never_done 0
        "[pod_of [''redis:7'']]" "Suc 0" "[]" "Suc 0" "Suc 0" "''page2''"]
    by (simp add: flaky_lister_def never_done_def)
  moreover have "flaky_lister (Suc 0) \<lparr>Limit = 100, Continue_opt = ''page2''\<rparr> = Inl ''timeout''"
    by (simp add: flaky_lister_def)
  moreover have "getImagesV2 [pod_of [''redis:7'']] [''redis:7'']"
    by (simp add: getImagesV2_def range_keys_def pod_of_def)
  ultimately show ?thesis
    by (simp add: GetClusterImagesV2_later_fetch_error)
qed

text \<open>
  C2: the error of the initial fetch of the streaming collector is to reach the caller.
  The code does not do this. Against a cluster that refuses the first call of \<open>List\<close>,
  \<open>GetClusterImagesV2\<close> returns the empty slice with a nil error, and it has no result
  that carries the error; \<open>GetClusterImagesV1\<close>, against the same cluster, returns the
  error of its call.
\<close>

theorem GetClusterImagesV2_initial_fetch_error_lost:
  "refusing_lister 0 \<lparr>Limit = 100, Continue_opt = []\<rparr> = Inl ''connection refused''
   \<and> GetClusterImagesV2 refusing_lister never_done ([], None)
   \<and> \<not> GetClusterImagesV2 refusing_lister never_done ([], Some ''connection refused'')
   \<and> refusing_lister 0 \<lparr>Limit = 0, Continue_opt = []\<rparr> = Inl ''connection refused''
   \<and> GetClusterImagesV1 refusing_lister = ([], Some ''connection refused'')"
proof -
  have "stream_pods refusing_lister never_done 0 0 [] = Some []"
    by (rule stream_pods_fetch_error) (simp add: refusing_lister_def)
  then show ?thesis
    by (simp add: GetClusterImagesV2_def GetClusterImagesV1_def getImagesV2_def range_keys_empty
        refusing_lister_def)
qed

section \<open>Properties of the constructor\<close>

text \<open>
  C9: \<open>NewK8SOutCli\<close> accepts a nil context: it behaves on nil exactly as on
  \<open>context.Background()\<close>, so a nil context is never the cause of a failure, and a client
  returned for nil holds the background context; a client returned for a non-nil context
  holds that context.
\<close>

theorem NewK8SOutCli_nil_context:
  "NewK8SOutCli p None = NewK8SOutCli p (Some (context_Background p))
   \<and> (NewK8SOutCli p None = Inr k \<longrightarrow> ctx k = context_Background p)
   \<and> (NewK8SOutCli p (Some c) = Inr k' \<longrightarrow> ctx k' = c)
   \<and> (isl (NewK8SOutCli p None) \<longleftrightarrow> isl (NewK8SOutCli p (Some c)))"
  by (auto simp: NewK8SOutCli_def Let_def split: sum.splits)

theorem NewK8SOutCli_nil_context_witness:
  "NewK8SOutCli example_platform None
     = Inr \<lparr>ctx = 0, clientset = ''clientset for /root/.kube/config''\<rparr>
   \<and> ctx \<lparr>ctx = 0::nat, clientset = ''clientset for /root/.kube/config''\<rparr>
       = context_Background example_platform
   \<and> NewK8SOutCli example_platform (Some 7)
       = Inr \<lparr>ctx = 7, clientset = ''clientset for /root/.kube/config''\<rparr>"
  using NewK8SOutCli_nil_context [where p = example_platform
      and k = "\<lparr>ctx = 0, clientset = ''clientset for /root/.kube/config''\<rparr>"
      and c = 7 and k' = "\<lparr>ctx = 7, clientset = ''clientset for /root/.kube/config''\<rparr>"]
  by (simp add: NewK8SOutCli_def getKubeConfig_def GetEnvOrDefault_def example_platform_def)

end
